theory Spec2Isabelle
  imports Complex_Main "HOL-Library.Multiset" "HOL-Library.Sublist" "HOL-Library.Char_ord"
    "HOL-Library.List_Lexorder" "HOL-Library.Product_Lexorder"
begin

section \<open>JavaScript values used by the client\<close>

text \<open>
  A TypeScript \<open>number\<close> is an IEEE double. Only its truthiness matters to the code
  modelled here: \<open>0\<close>, \<open>-0\<close> and \<open>NaN\<close> are falsy, every other number is truthy.
  Both zeros are \<open>Finite 0\<close>.
\<close>

datatype number = Finite rat | PosInfinity | NegInfinity | NaN

fun truthy_number :: "number \<Rightarrow> bool" where
  "truthy_number (Finite q) = (q \<noteq> 0)"
| "truthy_number PosInfinity = True"
| "truthy_number NegInfinity = True"
| "truthy_number NaN = False"

section \<open>The diff requests of the API client (api/rules.ts, api/templates.ts)\<close>

text \<open>
  \<open>diffRuleVersion\<close> and \<open>diffTemplateVersion\<close> issue one GET request each. The URL is a
  template literal; it is kept as its pieces, so that no number formatting is involved.
  \<open>params\<close> is \<open>None\<close> where the source passes \<open>undefined\<close>.
\<close>

datatype segment = Lit string | Num number

record request =
  url :: "segment list"
  params :: "(string \<times> number) list option"

definition compare_to_params :: "number option \<Rightarrow> (string \<times> number) list option" where
  \<comment> \<open>\<open>compareTo ? { compare_to: compareTo } : undefined\<close>; an omitted argument is
     \<open>undefined\<close>, which is falsy.\<close>
  "compare_to_params compareTo =
     (case compareTo of
        None \<Rightarrow> None
      | Some n \<Rightarrow> if truthy_number n then Some [(''compare_to'', n)] else None)"

definition diffRuleVersion :: "number \<Rightarrow> number \<Rightarrow> number option \<Rightarrow> request" where
  "diffRuleVersion ruleId versionId compareTo =
     \<lparr> url = [Lit ''/rules/'', Num ruleId, Lit ''/versions/'', Num versionId, Lit ''/diff''],
       params = compare_to_params compareTo \<rparr>"

definition diffTemplateVersion :: "number \<Rightarrow> number \<Rightarrow> number option \<Rightarrow> request" where
  "diffTemplateVersion templateId versionId compareTo =
     \<lparr> url = [Lit ''/templates/'', Num templateId, Lit ''/versions/'', Num versionId, Lit ''/diff''],
       params = compare_to_params compareTo \<rparr>"

text \<open>What a request says about the comparison target: the value sent under
  \<open>compare_to\<close>, if any.\<close>

definition sent_compare_to :: "request \<Rightarrow> number option" where
  "sent_compare_to req =
     (case params req of None \<Rightarrow> None | Some ps \<Rightarrow> map_of ps ''compare_to'')"

definition truthy_arg :: "number option \<Rightarrow> bool" where
  "truthy_arg a = (case a of None \<Rightarrow> False | Some n \<Rightarrow> truthy_number n)"

section \<open>Parameter detection on the templates page (\<open>extractParamsFromRego\<close>)\<close>

text \<open>
  The source runs the global regular expression \<open>/input\.params\.([a-zA-Z0-9_]+)/g\<close>
  over the Rego text with \<open>regex.exec\<close> in a loop, adds every captured group to a
  \<open>Set\<close>, and returns \<open>Array.from\<close> of the set.

  \<open>match_at s\<close> is the attempt to match at the first position of \<open>s\<close>: the literal
  prefix, then the longest non-empty run of identifier characters (the quantifier is
  greedy and nothing follows it, so there is no backtracking). It returns the captured
  group and the text after the match, where \<open>lastIndex\<close> points next.
\<close>

definition is_ident :: "char \<Rightarrow> bool" where
  "is_ident c = (c \<in> set (''abcdefghijklmnopqrstuvwxyz'' @ ''ABCDEFGHIJKLMNOPQRSTUVWXYZ''
                              @ ''0123456789_''))"

definition params_prefix :: string where
  "params_prefix = ''input.params.''"

definition match_at :: "string \<Rightarrow> (string \<times> string) option" where
  "match_at s =
     (if take (length params_prefix) s = params_prefix then
        (let t = drop (length params_prefix) s; m = takeWhile is_ident t
         in if m = [] then None else Some (m, dropWhile is_ident t))
      else None)"

text \<open>A match is never empty, so the loop consumes text at every iteration.\<close>

lemma match_at_Some:
  assumes "match_at s = Some (m, rest)"
  shows "s = params_prefix @ m @ rest" and "m \<noteq> []" and "\<forall>c\<in>set m. is_ident c"
    and "rest = [] \<or> \<not> is_ident (hd rest)"
proof -
  let ?t = "drop (length params_prefix) s"
  from assms have tk: "take (length params_prefix) s = params_prefix"
    and m: "m = takeWhile is_ident ?t" and r: "rest = dropWhile is_ident ?t" and ne: "m \<noteq> []"
    by (auto simp: match_at_def Let_def split: if_splits)
  have "s = take (length params_prefix) s @ ?t" by simp
  also have "\<dots> = params_prefix @ m @ rest" using tk m r by simp
  finally show "s = params_prefix @ m @ rest" .
  show "m \<noteq> []" by (rule ne)
  show "\<forall>c\<in>set m. is_ident c" using m by (auto dest: set_takeWhileD)
  show "rest = [] \<or> \<not> is_ident (hd rest)" using r by (metis hd_dropWhile)
qed

lemma match_at_shorter: "match_at s = Some (m, rest) \<Longrightarrow> length rest < length s"
  using match_at_Some(1) [of s m rest] match_at_Some(2) [of s m rest]
  by (metis length_append length_greater_0_conv trans_less_add2 add_less_cancel_right
      add.commute less_add_same_cancel2 add_gr_0)

text \<open>
  The successive results of \<open>regex.exec\<close>: the leftmost match at or after
  \<open>lastIndex\<close>, then the search resumes after that match.
\<close>

function regex_matches :: "string \<Rightarrow> string list" where
  "regex_matches [] = []"
| "regex_matches (c # cs) =
     (case match_at (c # cs) of
        Some (m, rest) \<Rightarrow> m # regex_matches rest
      | None \<Rightarrow> regex_matches cs)"
  by pat_completeness auto
termination
  by (relation "measure length") (auto dest: match_at_shorter)

text \<open>
  \<open>Set.add\<close> keeps the first insertion of a value, and \<open>Array.from\<close> lists the
  values in insertion order.
\<close>

definition set_add :: "string list \<Rightarrow> string \<Rightarrow> string list" where
  "set_add found m = (if m \<in> set found then found else found @ [m])"

definition extractParamsFromRego :: "string \<Rightarrow> string list" where
  "extractParamsFromRego rego = foldl set_add [] (regex_matches rego)"

text \<open>
  The reading of the specification: every identifier that stands after some occurrence
  of the literal prefix, whether or not that occurrence lies inside an earlier match.
\<close>

fun param_occurrences :: "string \<Rightarrow> string list" where
  "param_occurrences [] = []"
| "param_occurrences (c # cs) =
     (case match_at (c # cs) of
        Some (m, rest) \<Rightarrow> m # param_occurrences cs
      | None \<Rightarrow> param_occurrences cs)"

fun has_prefix_occurrence :: "string \<Rightarrow> bool" where
  "has_prefix_occurrence [] = False"
| "has_prefix_occurrence (c # cs) =
     (take (length params_prefix) (c # cs) = params_prefix \<or> has_prefix_occurrence cs)"

text \<open>A character that can stand neither inside the prefix nor inside an identifier.\<close>

definition guard_char :: "char \<Rightarrow> bool" where
  "guard_char c = (\<not> is_ident c \<and> c \<noteq> CHR ''.'')"

text \<open>
  The matches of the regular expression, told without the loop. An occurrence is a
  position at which the prefix stands, directly followed by an identifier; it is listed
  with that identifier, by position. A match covers the prefix and the identifier.
  \<open>kept\<close> goes through the occurrences from left to right and drops those that begin
  before the end of the last one it kept.
\<close>

fun occurrences_from :: "nat \<Rightarrow> string \<Rightarrow> (nat \<times> string) list" where
  "occurrences_from k [] = []"
| "occurrences_from k (c # cs) =
     (case match_at (c # cs) of
        Some (m, rest) \<Rightarrow> (k, m) # occurrences_from (Suc k) cs
      | None \<Rightarrow> occurrences_from (Suc k) cs)"

definition match_end :: "nat \<times> string \<Rightarrow> nat" where
  "match_end oc = fst oc + length params_prefix + length (snd oc)"

fun kept :: "nat \<Rightarrow> (nat \<times> string) list \<Rightarrow> (nat \<times> string) list" where
  "kept bound [] = []"
| "kept bound (oc # os) = (if fst oc < bound then kept bound os else oc # kept (match_end oc) os)"

text \<open>The position \<open>p\<close> lies after the start and before the end of one of the matches.\<close>

definition inside_match :: "(nat \<times> string) list \<Rightarrow> nat \<Rightarrow> bool" where
  "inside_match ms p = (\<exists>q\<in>set ms. fst q < p \<and> p < match_end q)"

text \<open>Every value once, at the place of its first occurrence.\<close>

definition first_occurrences :: "string list \<Rightarrow> string list" where
  "first_occurrences xs = rev (remdups (rev xs))"

section \<open>Pasting a predicate on the templates page (\<open>transformPredicateData\<close>)\<close>

text \<open>
  A value produced by \<open>JSON.parse\<close>. An object lists its properties in enumeration
  order, each key once. \<open>undefined\<close> is not a JSON value: where the source can hold
  \<open>undefined\<close>, the model has \<open>None\<close>.
\<close>

datatype json =
    JNull
  | JBool bool
  | JNum number
  | JStr string
  | JArr "json list"
  | JObj "(string \<times> json) list"

fun truthy :: "json \<Rightarrow> bool" where
  "truthy JNull = False"
| "truthy (JBool b) = b"
| "truthy (JNum n) = truthy_number n"
| "truthy (JStr s) = (s \<noteq> [])"
| "truthy (JArr _) = True"
| "truthy (JObj _) = True"

text \<open>
  Reading the property \<open>k\<close> of a value that is neither \<open>null\<close> nor \<open>undefined\<close>. Only
  the names \<open>data\<close>, \<open>releaseBundleVersion\<close> and \<open>getVersion\<close> are read; no boolean,
  number, string or array has a property of such a name, so the read gives \<open>undefined\<close>
  there.
\<close>

fun get_prop :: "json \<Rightarrow> string \<Rightarrow> json option" where
  "get_prop (JObj kvs) k = map_of kvs k"
| "get_prop _ k = None"

text \<open>\<open>v?.k\<close>: \<open>undefined\<close> when \<open>v\<close> is \<open>null\<close> or \<open>undefined\<close>.\<close>

fun opt_chain :: "json option \<Rightarrow> string \<Rightarrow> json option" where
  "opt_chain None k = None"
| "opt_chain (Some JNull) k = None"
| "opt_chain (Some v) k = get_prop v k"

text \<open>\<open>v.k\<close>: a \<open>TypeError\<close> (the outer \<open>None\<close>) when \<open>v\<close> is \<open>null\<close> or
  \<open>undefined\<close>.\<close>

fun prop_access :: "json option \<Rightarrow> string \<Rightarrow> json option option" where
  "prop_access None k = None"
| "prop_access (Some JNull) k = None"
| "prop_access (Some v) k = Some (get_prop v k)"

text \<open>Truthiness of a value that may be \<open>undefined\<close>.\<close>

definition truthy_opt :: "json option \<Rightarrow> bool" where
  "truthy_opt v = (case v of None \<Rightarrow> False | Some w \<Rightarrow> truthy w)"

text \<open>
  The object literal \<open>{ data: extractedData }\<close> as \<open>JSON.stringify\<close> sees it: a property
  whose value is \<open>undefined\<close> is left out of the serialization.
\<close>

definition object_data :: "json option \<Rightarrow> json" where
  "object_data extractedData =
     JObj (case extractedData of None \<Rightarrow> [] | Some x \<Rightarrow> [(''data'', x)])"

text \<open>
  \<open>JSON.parse\<close> and \<open>JSON.stringify(_, null, 2)\<close> belong to the JavaScript runtime and
  are parameters: \<open>parse s = None\<close> when \<open>JSON.parse\<close> throws. Everything inside the \<open>try\<close>
  block that throws ends in the \<open>catch\<close> branch, which returns the input.
\<close>

definition transformPredicateData ::
  "(string \<Rightarrow> json option) \<Rightarrow> (json \<Rightarrow> string) \<Rightarrow> string \<Rightarrow> string" where
  "transformPredicateData parse stringify jsonString =
     (case parse jsonString of
        None \<Rightarrow> jsonString
      | Some parsed \<Rightarrow>
          if truthy_opt (opt_chain (opt_chain (opt_chain (Some parsed) ''data'')
                           ''releaseBundleVersion'') ''getVersion'')
          then
            (case prop_access (Some parsed) ''data'' of
               None \<Rightarrow> jsonString
             | Some d \<Rightarrow>
                 (case prop_access d ''releaseBundleVersion'' of
                    None \<Rightarrow> jsonString
                  | Some r \<Rightarrow>
                      (case prop_access r ''getVersion'' of
                         None \<Rightarrow> jsonString
                       | Some extractedData \<Rightarrow> stringify (object_data extractedData))))
          else jsonString)"

text \<open>
  The reading of the claim: the value at a path of field names, present only when every
  step goes through an object that has the field.
\<close>

fun field_path :: "json \<Rightarrow> string list \<Rightarrow> json option" where
  "field_path v [] = Some v"
| "field_path (JObj kvs) (k # ks) =
     (case map_of kvs k of None \<Rightarrow> None | Some w \<Rightarrow> field_path w ks)"
| "field_path _ (k # ks) = None"

definition getVersion_path :: "string list" where
  "getVersion_path = [''data'', ''releaseBundleVersion'', ''getVersion'']"

text \<open>
  A model of \<open>JSON.stringify(value, null, 2)\<close> on parsed JSON values, used to run the
  example of \<open>predicateTransform.test.ts\<close>. The rendering of numbers and the quoting of
  strings are parameters. Non-empty arrays and objects put each element on a line of its
  own, indented two spaces deeper, with a comma and a line break between elements.
\<close>

definition newline :: char where "newline = CHR 0x0A"
definition dquote :: char where "dquote = CHR 0x22"

fun join :: "string \<Rightarrow> string list \<Rightarrow> string" where
  "join sep [] = []"
| "join sep [x] = x"
| "join sep (x # y # ys) = x @ sep @ join sep (y # ys)"

fun stringify_indent ::
  "(number \<Rightarrow> string) \<Rightarrow> (string \<Rightarrow> string) \<Rightarrow> nat \<Rightarrow> json \<Rightarrow> string" where
  "stringify_indent num quote ind JNull = ''null''"
| "stringify_indent num quote ind (JBool b) = (if b then ''true'' else ''false'')"
| "stringify_indent num quote ind (JNum n) = num n"
| "stringify_indent num quote ind (JStr s) = quote s"
| "stringify_indent num quote ind (JArr vs) =
     (if vs = [] then ''[]''
      else ''['' @ [newline]
        @ join ('','' @ [newline])
            (map (\<lambda>v. replicate (ind + 2) CHR '' '' @ stringify_indent num quote (ind + 2) v) vs)
        @ [newline] @ replicate ind CHR '' '' @ '']'')"
| "stringify_indent num quote ind (JObj kvs) =
     (if kvs = [] then ''{}''
      else ''{'' @ [newline]
        @ join ('','' @ [newline])
            (map (\<lambda>(k, v). replicate (ind + 2) CHR '' '' @ quote k @ '': ''
                     @ stringify_indent num quote (ind + 2) v) kvs)
        @ [newline] @ replicate ind CHR '' '' @ ''}'')"

text \<open>The example of \<open>predicateTransform.test.ts\<close>.\<close>

definition example_getVersion :: json where
  "example_getVersion =
     JObj [(''createdBy'', JStr ''token:marcelol@jfrog.com''),
           (''createdAt'', JStr ''2025-11-29T18:08:10.482Z''),
           (''evidenceConnection'',
              JObj [(''totalCount'', JNum (Finite 2)), (''edges'', JArr [])])]"

definition exampleInput :: json where
  "exampleInput =
     JObj [(''data'', JObj [(''releaseBundleVersion'',
              JObj [(''getVersion'', example_getVersion)])])]"

definition expectedOutput :: json where
  "expectedOutput = JObj [(''data'', example_getVersion)]"

text \<open>
  A runtime for the example: the one number of the example is rendered, strings are put
  between double quotes (the example's strings need no escape), and the parser knows the
  serialized example and two texts without the path.
\<close>

definition example_num :: "number \<Rightarrow> string" where
  "example_num n = (if n = Finite 2 then ''2'' else ''null'')"

definition example_quote :: "string \<Rightarrow> string" where
  "example_quote s = dquote # s @ [dquote]"

definition example_stringify :: "json \<Rightarrow> string" where
  "example_stringify = stringify_indent example_num example_quote 0"

definition example_parse :: "string \<Rightarrow> json option" where
  "example_parse s =
     (if s = example_stringify exampleInput then Some exampleInput
      else if s = ''{}'' then Some (JObj [])
      else if s = ''0'' then Some (JNum (Finite 0))
      else None)"

section \<open>Entities and versions (api/templates.ts, api/rules.ts)\<close>

text \<open>
  The client declares the records the backend serves. \<open>Template\<close> and \<open>Rule\<close> carry the
  same management fields (\<open>id\<close>, \<open>status\<close>, \<open>remote_id\<close>, \<open>created_at\<close>,
  \<open>updated_at\<close>) around the fields of their payload, and \<open>TemplateVersion\<close> and
  \<open>RuleVersion\<close> differ only in the name of the field that holds the owner's id
  (\<open>template_id\<close>, \<open>rule_id\<close>). One record serves both families, with the payload as a
  type parameter. An optional field is an \<open>option\<close>.
\<close>

datatype status = Draft | Published

record 'p entity =
  entity_id :: nat
  status :: status
  remote_id :: "string option"
  created_at :: string
  updated_at :: string
  payload :: 'p

record 'p version =
  version_id :: nat
  owner_id :: nat
  version_ref :: string
  message :: string
  author :: string
  data :: 'p
  version_created_at :: string
  parent_id :: "nat option"
  is_published :: bool

text \<open>The payload fields of a \<open>Rule\<close> (\<open>RulePayload\<close> without \<open>commit_message\<close> and
  \<open>author\<close>).\<close>

record rule_payload =
  template_id :: nat
  name :: string
  description :: "string option"
  is_custom :: bool
  version :: string
  parameters :: "(string \<times> string) list"

type_synonym rule = "rule_payload entity"

section \<open>Deleting a template on the templates page (\<open>handleDeleteTemplate\<close>)\<close>

text \<open>
  The handler awaits \<open>listRules()\<close>, keeps the rules whose \<open>template_id\<close> is the
  template's id, and either alerts that the template is in use, or asks for confirmation
  and starts the delete mutation, which sends \<open>DELETE /templates/{id}\<close>. A rejected
  \<open>listRules()\<close> (\<open>None\<close>) ends in the \<open>catch\<close> branch. The alert texts are kept
  as their contents: the number of dependent rules and their names.
\<close>

datatype ui_effect =
    AlertInUse nat "string list"
  | AlertCheckFailed
  | DeleteMutation nat

definition handleDeleteTemplate :: "rule list option \<Rightarrow> bool \<Rightarrow> nat \<Rightarrow> ui_effect list" where
  "handleDeleteTemplate listRules confirm templateId =
     (case listRules of
        None \<Rightarrow> [AlertCheckFailed]
      | Some rules \<Rightarrow>
          (let dependentRules = filter (\<lambda>rule. template_id (payload rule) = templateId) rules
           in if length dependentRules > 0
              then [AlertInUse (length dependentRules) (map (\<lambda>rule. name (payload rule)) dependentRules)]
              else if confirm then [DeleteMutation templateId] else []))"

section \<open>The backend store\<close>

text \<open>
  Modelled from the spec: the backend (entity store and version log) is not among the
  sources; the client above only calls it. The definitions of this section follow
  sections 3, 4.1, 4.2 and 7 of the specification.
\<close>

datatype error = NotFound | Conflict | ValidationError | RemoteError

text \<open>
  Modelled from the spec: the state of one entity family, its entities and its
  append-only version log in the order of appending, with the counters that number new
  entities and versions.
\<close>

record 'p store =
  entities :: "'p entity list"
  versions :: "'p version list"
  next_entity_id :: nat
  next_version_id :: nat

definition empty_store :: "'p store" where
  "empty_store = \<lparr> entities = [], versions = [], next_entity_id = 1, next_version_id = 1 \<rparr>"

text \<open>Modelled from the spec: \<open>get\<close> of the entity store, a plain read.\<close>

definition find_entity :: "'p store \<Rightarrow> nat \<Rightarrow> 'p entity option" where
  "find_entity st i = find (\<lambda>e. entity_id e = i) (entities st)"

text \<open>Modelled from the spec: the versions of one entity in the append-only log, in the
  order of appending.\<close>

definition entity_log :: "'p store \<Rightarrow> nat \<Rightarrow> 'p version list" where
  "entity_log st i = filter (\<lambda>v. owner_id v = i) (versions st)"


text \<open>Modelled from the spec: the entity's previous latest version, the one appended
  last; none before the first save.\<close>

definition latest_version :: "'p store \<Rightarrow> nat \<Rightarrow> 'p version option" where
  "latest_version st i = (case entity_log st i of [] \<Rightarrow> None | v # vs \<Rightarrow> Some (last (v # vs)))"

text \<open>
  Modelled from the spec: \<open>append(entity_id, snapshot, author, message)\<close>. The new version
  has a generated \<open>version_ref\<close> and points at the entity's previous latest version
  (\<open>null\<close> if it is the first). The generator \<open>gen\<close> is a parameter that sees the clock
  reading and the snapshot (the spec names time stamp and hash as an example); nothing is
  assumed of it. A reference that one of the entity's versions already carries is a
  \<open>Conflict\<close> (section 7) and nothing is appended. The clock reading \<open>now\<close> is an
  argument.
\<close>

definition new_version ::
  "(string \<Rightarrow> 'p \<Rightarrow> string) \<Rightarrow> 'p store \<Rightarrow> nat \<Rightarrow> 'p \<Rightarrow> string \<Rightarrow> string \<Rightarrow> string
     \<Rightarrow> 'p version" where
  "new_version gen st i snapshot auth msg now =
     \<lparr> version_id = next_version_id st,
       owner_id = i,
       version_ref = gen now snapshot,
       message = msg,
       author = auth,
       data = snapshot,
       version_created_at = now,
       parent_id = map_option version_id (latest_version st i),
       is_published = False \<rparr>"

definition append_version ::
  "(string \<Rightarrow> 'p \<Rightarrow> string) \<Rightarrow> 'p store \<Rightarrow> nat \<Rightarrow> 'p \<Rightarrow> string \<Rightarrow> string \<Rightarrow> string
     \<Rightarrow> error + 'p store" where
  "append_version gen st i snapshot auth msg now =
     (if gen now snapshot \<in> set (map version_ref (entity_log st i)) then Inl Conflict
      else Inr (st\<lparr> versions := versions st @ [new_version gen st i snapshot auth msg now],
                    next_version_id := Suc (next_version_id st) \<rparr>))"

text \<open>
  Modelled from the spec: \<open>create(payload)\<close> gives an entity with \<open>status = draft\<close>, and
  every save appends a version. The result is the new store and the entity; a failing
  operation returns the store as it was.
\<close>

definition create ::
  "(string \<Rightarrow> 'p \<Rightarrow> string) \<Rightarrow> 'p store \<Rightarrow> 'p \<Rightarrow> string \<Rightarrow> string \<Rightarrow> string
     \<Rightarrow> 'p store \<times> (error + 'p entity)" where
  "create gen st p auth msg now =
     (let e = \<lparr> entity_id = next_entity_id st, status = Draft, remote_id = None,
                created_at = now, updated_at = now, payload = p \<rparr>;
          st1 = st\<lparr> entities := entities st @ [e], next_entity_id := Suc (next_entity_id st) \<rparr>
      in case append_version gen st1 (entity_id e) p auth msg now of
           Inl err \<Rightarrow> (st, Inl err)
         | Inr st2 \<Rightarrow> (st2, Inr e))"

text \<open>
  Modelled from the spec: \<open>update(id, payload)\<close> gives the new entity state and a new
  version; a missing entity is \<open>NotFound\<close>. A failing operation returns the store as it
  was.
\<close>

definition update ::
  "(string \<Rightarrow> 'p \<Rightarrow> string) \<Rightarrow> 'p store \<Rightarrow> nat \<Rightarrow> 'p \<Rightarrow> string \<Rightarrow> string \<Rightarrow> string
     \<Rightarrow> 'p store \<times> (error + 'p entity)" where
  "update gen st i p auth msg now =
     (case find_entity st i of
        None \<Rightarrow> (st, Inl NotFound)
      | Some e \<Rightarrow>
          (let e' = e\<lparr> payload := p, updated_at := now \<rparr>;
               st1 = st\<lparr> entities := map (\<lambda>x. if entity_id x = i then e' else x) (entities st) \<rparr>
           in case append_version gen st1 i p auth msg now of
                Inl err \<Rightarrow> (st, Inl err)
              | Inr st2 \<Rightarrow> (st2, Inr e')))"

text \<open>
  Modelled from the spec: \<open>delete(id)\<close> fails with \<open>Conflict\<close> if dependent entities
  reference the entity; deletion is blocked, not cascaded. Whether dependents exist is
  decided by the caller, which knows the other family.
\<close>

definition delete_entity :: "bool \<Rightarrow> 'p store \<Rightarrow> nat \<Rightarrow> 'p store \<times> (error + unit)" where
  "delete_entity referenced st i =
     (case find_entity st i of
        None \<Rightarrow> (st, Inl NotFound)
      | Some e \<Rightarrow>
          if referenced then (st, Inl Conflict)
          else (st\<lparr> entities := filter (\<lambda>x. entity_id x \<noteq> i) (entities st) \<rparr>, Inr ()))"

text \<open>Modelled from the spec: the two families, templates and rules; a rule references
  a template through \<open>template_id\<close>.\<close>

record 't backend =
  templates :: "'t store"
  rules :: "rule_payload store"

definition referencing_rules :: "'t backend \<Rightarrow> nat \<Rightarrow> rule list" where
  "referencing_rules b tid = filter (\<lambda>r. template_id (payload r) = tid) (entities (rules b))"

definition delete_template :: "'t backend \<Rightarrow> nat \<Rightarrow> 't backend \<times> (error + unit)" where
  "delete_template b tid =
     (case delete_entity (referencing_rules b tid \<noteq> []) (templates b) tid of
        (ts, res) \<Rightarrow> (b\<lparr> templates := ts \<rparr>, res))"









section \<open>A worked example: the template of section 8 of the specification\<close>

text \<open>A generator of references in the manner of the spec's example: the time stamp
  and the text of the snapshot. It does not look at the log.\<close>

definition example_gen :: "string \<Rightarrow> string list \<Rightarrow> string" where
  "example_gen now snapshot = now @ ''-'' @ concat snapshot"

text \<open>The template \<open>t1\<close> with the body \<open>package p\<close>, saved once and then updated. The
  payload is the list of the body's lines.\<close>

definition example_created :: "string list store" where
  "example_created =
     fst (create example_gen empty_store [''package p''] ''system'' ''Initial draft'' ''t0'')"


definition example_updated :: "string list store" where
  "example_updated =
     fst (update example_gen example_created 1 [''package p'', ''allow := true'']
            ''system'' ''Update draft'' ''t1'')"

definition example_rule :: rule where
  "example_rule =
     \<lparr> entity_id = 1, status = Draft, remote_id = None, created_at = ''t2'', updated_at = ''t2'',
       payload = \<lparr> template_id = 1, name = ''r1'', description = None, is_custom = True,
                   version = ''0.1.0'', parameters = [] \<rparr> \<rparr>"

definition example_backend :: "string list backend" where
  "example_backend =
     \<lparr> templates = example_updated,
       rules = \<lparr> entities = [example_rule], versions = [], next_entity_id = 2,
                 next_version_id = 1 \<rparr> \<rparr>"

definition example_backend_no_rules :: "string list backend" where
  "example_backend_no_rules = \<lparr> templates = example_updated, rules = empty_store \<rparr>"

section \<open>Results about the client\<close>

lemma sent_compare_to_rule:
  "sent_compare_to (diffRuleVersion r v c) = (if truthy_arg c then c else None)"
  by (cases c) (simp_all add: sent_compare_to_def diffRuleVersion_def compare_to_params_def
      truthy_arg_def)

lemma sent_compare_to_template:
  "sent_compare_to (diffTemplateVersion t v c) = (if truthy_arg c then c else None)"
  by (cases c) (simp_all add: sent_compare_to_def diffTemplateVersion_def compare_to_params_def
      truthy_arg_def)

text \<open>
  Claim C10. In both client diff calls the \<open>compare_to\<close> query parameter is sent exactly
  when the \<open>compareTo\<close> argument is truthy. A call with \<open>compareTo = 0\<close> therefore issues
  the same request as a call that omits the argument (the compare-with-parent form), and
  no call ever sends \<open>compare_to = 0\<close>.
\<close>

theorem compare_to_sent_iff_truthy:
  "(sent_compare_to (diffRuleVersion r v c) \<noteq> None) = truthy_arg c
   \<and> (sent_compare_to (diffTemplateVersion t v c) \<noteq> None) = truthy_arg c
   \<and> (params (diffRuleVersion r v c) \<noteq> None) = truthy_arg c
   \<and> (params (diffTemplateVersion t v c) \<noteq> None) = truthy_arg c
   \<and> diffRuleVersion r v (Some (Finite 0)) = diffRuleVersion r v None
   \<and> diffTemplateVersion t v (Some (Finite 0)) = diffTemplateVersion t v None
   \<and> sent_compare_to (diffRuleVersion r v c) \<noteq> Some (Finite 0)
   \<and> sent_compare_to (diffTemplateVersion t v c) \<noteq> Some (Finite 0)"
proof -
  have p: "(compare_to_params c \<noteq> None) = truthy_arg c"
    by (cases c) (simp_all add: compare_to_params_def truthy_arg_def)
  have z: "compare_to_params (Some (Finite 0)) = compare_to_params None"
    by (simp add: compare_to_params_def)
  have s: "((if truthy_arg c then c else None) \<noteq> None) = truthy_arg c"
    by (cases c) (simp_all add: truthy_arg_def)
  have nz: "(if truthy_arg c then c else None) \<noteq> Some (Finite 0)"
    by (cases c) (auto simp: truthy_arg_def)
  show ?thesis
    unfolding sent_compare_to_rule sent_compare_to_template
    using p z s nz by (simp add: diffRuleVersion_def diffTemplateVersion_def)
qed

theorem compare_to_sent_iff_truthy_witness:
  "sent_compare_to (diffRuleVersion (Finite 3) (Finite 7) (Some (Finite 5))) = Some (Finite 5)
   \<and> sent_compare_to (diffRuleVersion (Finite 3) (Finite 7) (Some (Finite 0))) = None
   \<and> params (diffTemplateVersion (Finite 3) (Finite 7) (Some (Finite 0))) = None
   \<and> params (diffTemplateVersion (Finite 3) (Finite 7) None) = None"
  using compare_to_sent_iff_truthy [of "Finite 3" "Finite 7" "Some (Finite 5)" "Finite 3"]
    compare_to_sent_iff_truthy [of "Finite 3" "Finite 7" "Some (Finite 0)" "Finite 3"]
    compare_to_sent_iff_truthy [of "Finite 3" "Finite 7" "None" "Finite 3"]
  by (simp add: sent_compare_to_rule truthy_arg_def)

section \<open>Results about parameter detection\<close>

lemma match_at_intro:
  assumes "m \<noteq> []" and "\<forall>c\<in>set m. is_ident c" and "post = [] \<or> \<not> is_ident (hd post)"
  shows "match_at (params_prefix @ m @ post) = Some (m, post)"
proof -
  have tw: "takeWhile is_ident (m @ post) = m"
    using assms(2,3) by (cases post) (simp_all add: takeWhile_append2)
  have dw: "dropWhile is_ident (m @ post) = post"
    using assms(2,3) by (cases post) (simp_all add: dropWhile_append2)
  show ?thesis using tw dw assms(1) by (simp add: match_at_def)
qed

lemma set_foldl_set_add: "set (foldl set_add acc ms) = set acc \<union> set ms"
  by (induction ms arbitrary: acc) (auto simp: set_add_def)

lemma distinct_foldl_set_add: "distinct acc \<Longrightarrow> distinct (foldl set_add acc ms)"
  by (induction ms arbitrary: acc) (auto simp: set_add_def)

lemma set_extractParamsFromRego: "set (extractParamsFromRego s) = set (regex_matches s)"
  by (simp add: extractParamsFromRego_def set_foldl_set_add)

lemma param_occurrences_suffix:
  "suffix t s \<Longrightarrow> set (param_occurrences t) \<subseteq> set (param_occurrences s)"
proof (induction s)
  case Nil
  then show ?case by simp
next
  case (Cons c cs)
  from Cons.prems have "t = c # cs \<or> suffix t cs" by (simp add: suffix_Cons)
  then show ?case
  proof
    assume "t = c # cs" then show ?thesis by simp
  next
    assume "suffix t cs"
    then have "set (param_occurrences t) \<subseteq> set (param_occurrences cs)" by (rule Cons.IH)
    then show ?thesis by (auto split: option.splits)
  qed
qed

lemma match_at_rest_suffix: "match_at (c # cs) = Some (m, rest) \<Longrightarrow> suffix rest cs"
proof -
  assume a: "match_at (c # cs) = Some (m, rest)"
  then have e: "c # cs = params_prefix @ m @ rest" by (rule match_at_Some(1))
  have "params_prefix \<noteq> []" by (simp add: params_prefix_def)
  then obtain p ps where p: "params_prefix = p # ps" by (cases params_prefix) auto
  with e have "c # cs = p # (ps @ m @ rest)" by simp
  then have "cs = (ps @ m) @ rest" by simp
  then show ?thesis unfolding suffix_def by blast
qed

lemma regex_matches_sound: "set (regex_matches s) \<subseteq> set (param_occurrences s)"
proof (induction s rule: regex_matches.induct)
  case 1
  then show ?case by simp
next
  case (2 c cs)
  show ?case
  proof (cases "match_at (c # cs)")
    case None
    with 2 show ?thesis by auto
  next
    case (Some a)
    obtain m rest where a: "a = (m, rest)" by (cases a)
    have "set (regex_matches rest) \<subseteq> set (param_occurrences rest)"
      using 2(2) Some a by simp
    moreover have "set (param_occurrences rest) \<subseteq> set (param_occurrences cs)"
      using match_at_rest_suffix [of c cs m rest] Some a param_occurrences_suffix by blast
    ultimately show ?thesis using Some a by auto
  qed
qed

lemma has_prefix_occurrence_iff:
  "has_prefix_occurrence s \<longleftrightarrow> (\<exists>pre post. s = pre @ params_prefix @ post)"
proof (induction s)
  case Nil
  then show ?case by (simp add: params_prefix_def)
next
  case (Cons c cs)
  have hd_case: "take (length params_prefix) (c # cs) = params_prefix
      \<longleftrightarrow> (\<exists>post. c # cs = params_prefix @ post)"
    by (metis append_eq_conv_conj)
  show ?case
  proof
    assume "has_prefix_occurrence (c # cs)"
    then consider "take (length params_prefix) (c # cs) = params_prefix"
      | "has_prefix_occurrence cs" by auto
    then show "\<exists>pre post. c # cs = pre @ params_prefix @ post"
    proof cases
      case 1
      then obtain post where "c # cs = [] @ params_prefix @ post" using hd_case by auto
      then show ?thesis by blast
    next
      case 2
      then obtain pre post where "cs = pre @ params_prefix @ post" using Cons.IH by auto
      then have "c # cs = (c # pre) @ params_prefix @ post" by simp
      then show ?thesis by blast
    qed
  next
    assume "\<exists>pre post. c # cs = pre @ params_prefix @ post"
    then obtain pre post where e: "c # cs = pre @ params_prefix @ post" by auto
    show "has_prefix_occurrence (c # cs)"
    proof (cases pre)
      case Nil
      with e have "\<exists>post. c # cs = params_prefix @ post" by auto
      with hd_case show ?thesis by simp
    next
      case (Cons d pre')
      with e have "cs = pre' @ params_prefix @ post" by simp
      with Cons.IH show ?thesis by auto
    qed
  qed
qed

lemma regex_matches_no_prefix: "\<not> has_prefix_occurrence s \<Longrightarrow> regex_matches s = []"
proof (induction s rule: regex_matches.induct)
  case 1
  then show ?case by simp
next
  case (2 c cs)
  from 2(3) have np: "take (length params_prefix) (c # cs) \<noteq> params_prefix"
    and nr: "\<not> has_prefix_occurrence cs" by auto
  from np have "match_at (c # cs) = None" by (simp add: match_at_def)
  with 2(1) nr show ?case by simp
qed

lemma param_occurrences_iff:
  "m \<in> set (param_occurrences s) \<longleftrightarrow>
     (\<exists>pre post. s = pre @ params_prefix @ m @ post \<and> m \<noteq> [] \<and> (\<forall>c\<in>set m. is_ident c)
        \<and> (post = [] \<or> \<not> is_ident (hd post)))"
  (is "?L s \<longleftrightarrow> ?R s")
proof (induction s)
  case Nil
  then show ?case by (simp add: params_prefix_def)
next
  case (Cons c cs)
  show ?case
  proof
    assume L: "?L (c # cs)"
    show "?R (c # cs)"
    proof (cases "\<exists>rest. match_at (c # cs) = Some (m, rest)")
      case True
      then obtain rest where r: "match_at (c # cs) = Some (m, rest)" by auto
      have "c # cs = [] @ params_prefix @ m @ rest" using match_at_Some(1) [OF r] by simp
      then show ?thesis using match_at_Some(2-4) [OF r] by blast
    next
      case False
      with L have "?L cs" by (auto split: option.splits)
      then obtain pre post where "cs = pre @ params_prefix @ m @ post" "m \<noteq> []"
        "\<forall>c\<in>set m. is_ident c" "post = [] \<or> \<not> is_ident (hd post)" using Cons.IH by auto
      then have "c # cs = (c # pre) @ params_prefix @ m @ post \<and> m \<noteq> [] \<and>
        (\<forall>c\<in>set m. is_ident c) \<and> (post = [] \<or> \<not> is_ident (hd post))" by simp
      then show ?thesis by blast
    qed
  next
    assume "?R (c # cs)"
    then obtain pre post where e: "c # cs = pre @ params_prefix @ m @ post" and ne: "m \<noteq> []"
      and al: "\<forall>c\<in>set m. is_ident c" and po: "post = [] \<or> \<not> is_ident (hd post)" by auto
    show "?L (c # cs)"
    proof (cases pre)
      case Nil
      then have "match_at (c # cs) = Some (m, post)"
        using e match_at_intro [OF ne al po] by simp
      then show ?thesis by simp
    next
      case (Cons d pre')
      with e have "cs = pre' @ params_prefix @ m @ post" by simp
      with ne al po have "?R cs" by blast
      then have "?L cs" using Cons.IH by simp
      then show ?thesis by (auto split: option.splits)
    qed
  qed
qed

lemma params_prefix_chars: "\<forall>c\<in>set params_prefix. \<not> guard_char c"
  by (simp add: params_prefix_def guard_char_def is_ident_def)

lemma match_at_no_guard_char:
  assumes "match_at s = Some (m, rest)"
  shows "\<forall>c\<in>set (params_prefix @ m). \<not> guard_char c"
  using match_at_Some(3) [OF assms] params_prefix_chars by (auto simp: guard_char_def)

lemma regex_matches_guarded:
  assumes "match_at t = Some (m, r)" and "pre = [] \<or> guard_char (last pre)"
  shows "m \<in> set (regex_matches (pre @ t))"
  using assms(2)
proof (induction "length pre" arbitrary: pre rule: less_induct)
  case less
  show ?case
  proof (cases pre)
    case Nil
    from assms(1) have "t \<noteq> []" by (auto simp: match_at_def params_prefix_def)
    then obtain c cs where "t = c # cs" by (cases t) auto
    with assms(1) Nil show ?thesis by simp
  next
    case (Cons d pre')
    then have g: "guard_char (last pre)" using less.prems by simp
    show ?thesis
    proof (cases "match_at (pre @ t)")
      case None
      have "pre' = [] \<or> guard_char (last pre')" using g Cons by (cases pre') auto
      then have "m \<in> set (regex_matches (pre' @ t))"
        using less.hyps [of pre'] Cons by simp
      then show ?thesis using None Cons by simp
    next
      case (Some a)
      obtain m' rest' where a: "a = (m', rest')" by (cases a)
      let ?w = "params_prefix @ m'"
      have e: "pre @ t = ?w @ rest'" using match_at_Some(1) [OF Some [unfolded a]] by simp
      have ng: "\<forall>c\<in>set ?w. \<not> guard_char c"
        using match_at_no_guard_char [OF Some [unfolded a]] .
      have wne: "?w \<noteq> []" by (simp add: params_prefix_def)
      have pre_eq: "pre = butlast pre @ [last pre]" using Cons by simp
      then have "butlast pre @ (last pre # t) = ?w @ rest'" using e
        by (metis append.assoc append_Cons append_Nil)
      then obtain us where us: "butlast pre = ?w @ us \<and> us @ last pre # t = rest'
          \<or> butlast pre @ us = ?w \<and> last pre # t = us @ rest'"
        unfolding append_eq_append_conv2 by blast
      have "\<exists>pre''. rest' = pre'' @ t \<and> length pre'' < length pre
           \<and> (pre'' = [] \<or> guard_char (last pre''))"
        using us
      proof
        assume h: "butlast pre = ?w @ us \<and> us @ last pre # t = rest'"
        then have "rest' = (us @ [last pre]) @ t" by simp
        moreover have "length (us @ [last pre]) < length pre"
          using h wne pre_eq
          by (metis append_is_Nil_conv length_append length_append_singleton length_butlast
              length_greater_0_conv less_add_same_cancel2 add.commute Suc_less_eq
              less_Suc_eq not_add_less2 add_Suc_right)
        moreover have "guard_char (last (us @ [last pre]))" using g by simp
        ultimately show ?thesis by blast
      next
        assume h: "butlast pre @ us = ?w \<and> last pre # t = us @ rest'"
        show ?thesis
        proof (cases us)
          case Nil
          with h have "rest' = [last pre] @ t" by simp
          moreover have "length [last pre] < length pre"
            using h Nil wne pre_eq
            by (metis One_nat_def append_Nil2 length_Cons length_append_singleton
                length_greater_0_conv list.size(3) Suc_less_eq)
          moreover have "guard_char (last [last pre])" using g by simp
          ultimately show ?thesis by blast
        next
          case (Cons u us')
          with h have "u = last pre" by simp
          with h Cons have "last pre \<in> set ?w" by (metis in_set_conv_decomp)
          with ng g show ?thesis by blast
        qed
      qed
      then obtain pre'' where p: "rest' = pre'' @ t" "length pre'' < length pre"
        "pre'' = [] \<or> guard_char (last pre'')" by blast
      have "m \<in> set (regex_matches (pre'' @ t))" using less.hyps [OF p(2) p(3)] .
      then show ?thesis using Some a Cons p(1) by simp
    qed
  qed
qed

lemma regex_matches_complete_guarded:
  assumes "s = pre @ params_prefix @ m @ post" and "m \<noteq> []" and "\<forall>c\<in>set m. is_ident c"
    and "post = [] \<or> \<not> is_ident (hd post)" and "pre = [] \<or> guard_char (last pre)"
  shows "m \<in> set (regex_matches s)"
  using regex_matches_guarded [OF match_at_intro [OF assms(2,3,4)] assms(5)] assms(1) by simp

text \<open>
  The search resumes after each match, so an occurrence of the prefix that begins inside
  an earlier match is never examined. In \<open>input.params.input.params.x\<close> the first match
  captures \<open>input\<close> and ends at the second dot; what is left, \<open>.params.x\<close>, holds no
  match. The identifier \<open>x\<close> stands after an occurrence of the prefix and is not returned.
\<close>

theorem extractParams_misses_overlapped_occurrence:
  "''x'' \<in> set (param_occurrences ''input.params.input.params.x'')
   \<and> ''x'' \<notin> set (extractParamsFromRego ''input.params.input.params.x'')
   \<and> extractParamsFromRego ''input.params.input.params.x'' = [''input'']"
  by (simp add: extractParamsFromRego_def match_at_def params_prefix_def is_ident_def
      set_add_def)

lemma occurrences_from_iff:
  "(p, m) \<in> set (occurrences_from k s) \<longleftrightarrow>
     k \<le> p \<and> p - k < length s \<and> (\<exists>rest. match_at (drop (p - k) s) = Some (m, rest))"
proof (induction s arbitrary: k)
  case Nil
  then show ?case by simp
next
  case (Cons c cs)
  have tl: "(p, m) \<in> set (occurrences_from (Suc k) cs) \<longleftrightarrow>
      Suc k \<le> p \<and> p - Suc k < length cs \<and> (\<exists>rest. match_at (drop (p - Suc k) cs) = Some (m, rest))"
    by (rule Cons.IH)
  have dr: "drop (p - k) (c # cs) = drop (p - Suc k) cs" if "Suc k \<le> p"
  proof -
    from that have "p - k = Suc (p - Suc k)" by arith
    then show ?thesis by simp
  qed
  have hd: "(p, m) \<in> set (occurrences_from k (c # cs)) \<longleftrightarrow>
      (p = k \<and> (\<exists>rest. match_at (c # cs) = Some (m, rest)))
      \<or> (p, m) \<in> set (occurrences_from (Suc k) cs)"
    by (auto split: option.splits)
  show ?case
  proof (cases "p = k")
    case True
    then show ?thesis unfolding hd tl by auto
  next
    case False
    then have "k \<le> p \<longleftrightarrow> Suc k \<le> p" by auto
    moreover have "Suc k \<le> p \<Longrightarrow> p - k < length (c # cs) \<longleftrightarrow> p - Suc k < length cs"
      by auto
    ultimately show ?thesis unfolding hd tl using False dr by auto
  qed
qed

lemma occurrences_from_positions: "oc \<in> set (occurrences_from k s) \<Longrightarrow> k \<le> fst oc"
  using occurrences_from_iff [of "fst oc" "snd oc" k s] by simp

lemma occurrences_from_sorted: "sorted_wrt (\<lambda>a b. fst a < fst b) (occurrences_from k s)"
proof (induction s arbitrary: k)
  case Nil
  then show ?case by simp
next
  case (Cons c cs)
  have "k < fst x" if "x \<in> set (occurrences_from (Suc k) cs)" for x
    using occurrences_from_positions [OF that] by simp
  then have "\<forall>x\<in>set (occurrences_from (Suc k) cs). k < fst x" by blast
  then show ?case using Cons.IH [of "Suc k"] by (auto split: option.splits)
qed

lemma map_snd_occurrences_from: "map snd (occurrences_from k s) = param_occurrences s"
  by (induction s arbitrary: k) (auto split: option.splits)

lemma kept_subset: "set (kept bound os) \<subseteq> set os"
  by (induction os arbitrary: bound) auto

lemma kept_lim_head:
  "os = [] \<or> (bound \<le> fst (hd os) \<and> bound2 \<le> fst (hd os)) \<Longrightarrow> kept bound os = kept bound2 os"
  by (cases os) auto

lemma kept_skip:
  "j + length xs \<le> bound \<Longrightarrow>
     kept bound (occurrences_from j (xs @ ys)) = kept bound (occurrences_from (j + length xs) ys)"
proof (induction xs arbitrary: j)
  case Nil
  then show ?case by simp
next
  case (Cons x xs)
  from Cons.prems have lt: "j < bound" and le: "Suc j + length xs \<le> bound" by auto
  have "kept bound (occurrences_from j ((x # xs) @ ys)) = kept bound (occurrences_from (Suc j) (xs @ ys))"
    using lt by (auto split: option.splits)
  also have "\<dots> = kept bound (occurrences_from (Suc j + length xs) ys)" by (rule Cons.IH [OF le])
  finally show ?case by simp
qed

lemma regex_matches_kept:
  "regex_matches s = map snd (kept k (occurrences_from k s))"
proof (induction s arbitrary: k rule: regex_matches.induct)
  case 1
  then show ?case by simp
next
  case (2 c cs)
  show ?case
  proof (cases "match_at (c # cs)")
    case None
    have "kept k (occurrences_from (Suc k) cs) = kept (Suc k) (occurrences_from (Suc k) cs)"
    proof (rule kept_lim_head)
      show "occurrences_from (Suc k) cs = [] \<or>
        k \<le> fst (hd (occurrences_from (Suc k) cs)) \<and> Suc k \<le> fst (hd (occurrences_from (Suc k) cs))"
        using occurrences_from_positions [of "hd (occurrences_from (Suc k) cs)" "Suc k" cs]
        by (cases "occurrences_from (Suc k) cs") auto
    qed
    then show ?thesis using None 2(1) [OF None, of "Suc k"] by simp
  next
    case (Some a)
    obtain m rest where a: "a = (m, rest)" by (cases a)
    have e: "c # cs = params_prefix @ m @ rest" using match_at_Some(1) [OF Some [unfolded a]] .
    have "params_prefix \<noteq> []" by (simp add: params_prefix_def)
    then obtain x xs where px: "params_prefix = x # xs" by (cases params_prefix) auto
    with e have "c # cs = x # (xs @ m @ rest)" by simp
    then have cs: "cs = (xs @ m) @ rest" by simp
    have len: "Suc k + length (xs @ m) = k + length params_prefix + length m"
      by (simp add: px)
    have "kept (match_end (k, m)) (occurrences_from (Suc k) cs)
        = kept (match_end (k, m)) (occurrences_from (Suc k + length (xs @ m)) rest)"
      unfolding cs by (rule kept_skip) (simp add: match_end_def px)
    also have "\<dots> = kept (match_end (k, m)) (occurrences_from (match_end (k, m)) rest)"
      by (simp add: match_end_def px add.assoc)
    finally have sk: "kept (match_end (k, m)) (occurrences_from (Suc k) cs)
        = kept (match_end (k, m)) (occurrences_from (match_end (k, m)) rest)" .
    have "regex_matches rest = map snd (kept (match_end (k, m)) (occurrences_from (match_end (k, m)) rest))"
      using 2(2) [OF Some, of m rest "match_end (k, m)"] a by simp
    then show ?thesis using Some a sk by simp
  qed
qed

lemma kept_iff:
  assumes "sorted_wrt (\<lambda>a b. fst a < fst b) os" and "oc \<in> set os"
  shows "oc \<in> set (kept bound os) \<longleftrightarrow> bound \<le> fst oc \<and> \<not> inside_match (kept bound os) (fst oc)"
  using assms
proof (induction os arbitrary: bound)
  case Nil
  then show ?case by simp
next
  case (Cons o0 os)
  from Cons.prems(1) have later: "\<forall>x\<in>set os. fst o0 < fst x" and srt: "sorted_wrt (\<lambda>a b. fst a < fst b) os"
    by auto
  have keptlater: "\<forall>x\<in>set (kept l os). fst o0 < fst x" for l
    using later kept_subset [of l os] by auto
  show ?case
  proof (cases "fst o0 < bound")
    case True
    show ?thesis
    proof (cases "oc = o0")
      case True
      with \<open>fst o0 < bound\<close> keptlater [of bound] show ?thesis by auto
    next
      case False
      with Cons.prems(2) have "oc \<in> set os" by simp
      from Cons.IH [OF srt this, of bound] True show ?thesis by simp
    qed
  next
    case False
    show ?thesis
    proof (cases "oc = o0")
      case True
      have "\<not> inside_match (o0 # kept (match_end o0) os) (fst o0)"
        using keptlater [of "match_end o0"] by (auto simp: inside_match_def)
      with True False show ?thesis by simp
    next
      case ne: False
      with Cons.prems(2) have oin: "oc \<in> set os" by simp
      then have gt: "fst o0 < fst oc" using later by simp
      have "inside_match (o0 # kept (match_end o0) os) (fst oc)
          \<longleftrightarrow> fst oc < match_end o0 \<or> inside_match (kept (match_end o0) os) (fst oc)"
        using gt by (auto simp: inside_match_def)
      moreover have "oc \<in> set (kept (match_end o0) os) \<longleftrightarrow>
          match_end o0 \<le> fst oc \<and> \<not> inside_match (kept (match_end o0) os) (fst oc)"
        by (rule Cons.IH [OF srt oin])
      ultimately show ?thesis using False ne gt by auto
    qed
  qed
qed

lemma foldl_set_add_first_occurrences: "foldl set_add [] xs = first_occurrences xs"
proof (induction xs rule: rev_induct)
  case Nil
  then show ?case by (simp add: first_occurrences_def)
next
  case (snoc x xs)
  have "set (first_occurrences xs) = set xs" by (simp add: first_occurrences_def)
  then show ?case using snoc by (auto simp: first_occurrences_def set_add_def)
qed


lemma occurrences_from_decomp:
  "(p, m) \<in> set (occurrences_from 0 s) \<longleftrightarrow>
     (\<exists>pre post. s = pre @ params_prefix @ m @ post \<and> length pre = p \<and> m \<noteq> []
        \<and> (\<forall>c\<in>set m. is_ident c) \<and> (post = [] \<or> \<not> is_ident (hd post)))"
proof
  assume "(p, m) \<in> set (occurrences_from 0 s)"
  then obtain rest where lt: "p < length s" and ma: "match_at (drop p s) = Some (m, rest)"
    using occurrences_from_iff [of p m 0 s] by auto
  have "s = take p s @ params_prefix @ m @ rest"
    using match_at_Some(1) [OF ma] append_take_drop_id [of p s] by simp
  moreover have "length (take p s) = p" using lt by simp
  ultimately show "\<exists>pre post. s = pre @ params_prefix @ m @ post \<and> length pre = p \<and> m \<noteq> []
        \<and> (\<forall>c\<in>set m. is_ident c) \<and> (post = [] \<or> \<not> is_ident (hd post))"
    using match_at_Some(2-4) [OF ma] by blast
next
  assume "\<exists>pre post. s = pre @ params_prefix @ m @ post \<and> length pre = p \<and> m \<noteq> []
        \<and> (\<forall>c\<in>set m. is_ident c) \<and> (post = [] \<or> \<not> is_ident (hd post))"
  then obtain pre post where s: "s = pre @ params_prefix @ m @ post" and l: "length pre = p"
    and ne: "m \<noteq> []" and al: "\<forall>c\<in>set m. is_ident c"
    and po: "post = [] \<or> \<not> is_ident (hd post)" by auto
  have "drop p s = params_prefix @ m @ post" using s l by simp
  then have "match_at (drop p s) = Some (m, post)" using match_at_intro [OF ne al po] by simp
  moreover have "p < length s" using s l by (simp add: params_prefix_def)
  ultimately show "(p, m) \<in> set (occurrences_from 0 s)"
    using occurrences_from_iff [of p m 0 s] by auto
qed

lemma kept_characterisation:
  "oc \<in> set (kept 0 (occurrences_from 0 s)) \<longleftrightarrow>
     oc \<in> set (occurrences_from 0 s) \<and> \<not> inside_match (kept 0 (occurrences_from 0 s)) (fst oc)"
  using kept_iff [OF occurrences_from_sorted, of oc 0 s 0] kept_subset [of 0 "occurrences_from 0 s"]
  by auto

text \<open>
  Claim C9, amended. \<open>extractParamsFromRego\<close> returns, exactly once each and in the order
  of their first match, the identifiers (longest non-empty runs of \<open>[a-zA-Z0-9_]\<close>)
  standing directly after those occurrences of \<open>input.params.\<close> that do not begin inside
  a match; the matches are these occurrences with their identifiers, taken from left to
  right. An occurrence that begins inside a match is skipped. The list has no duplicates,
  holds only identifiers that stand after an occurrence of the prefix, and is empty when
  the prefix does not occur; in particular the identifier after an occurrence at the start
  of the text, or after a character other than \<open>[a-zA-Z0-9_.]\<close>, is always returned.
\<close>

theorem extractParams_non_overlapping_matches:
  "extractParamsFromRego s = first_occurrences (map snd (kept 0 (occurrences_from 0 s)))
   \<and> distinct (extractParamsFromRego s)
   \<and> (\<forall>p m. (p, m) \<in> set (occurrences_from 0 s) \<longleftrightarrow>
         (\<exists>pre post. s = pre @ params_prefix @ m @ post \<and> length pre = p \<and> m \<noteq> []
            \<and> (\<forall>c\<in>set m. is_ident c) \<and> (post = [] \<or> \<not> is_ident (hd post))))
   \<and> (\<forall>oc. oc \<in> set (kept 0 (occurrences_from 0 s)) \<longleftrightarrow>
         oc \<in> set (occurrences_from 0 s)
         \<and> \<not> inside_match (kept 0 (occurrences_from 0 s)) (fst oc))
   \<and> set (extractParamsFromRego s) \<subseteq> set (param_occurrences s)
   \<and> (\<not> has_prefix_occurrence s \<longrightarrow> extractParamsFromRego s = [])
   \<and> (\<forall>pre m post.
         s = pre @ params_prefix @ m @ post \<and> m \<noteq> [] \<and> (\<forall>c\<in>set m. is_ident c)
         \<and> (post = [] \<or> \<not> is_ident (hd post)) \<and> (pre = [] \<or> guard_char (last pre))
         \<longrightarrow> m \<in> set (extractParamsFromRego s))"
proof -
  have ex: "extractParamsFromRego s = first_occurrences (map snd (kept 0 (occurrences_from 0 s)))"
    using regex_matches_kept [of s 0]
    by (simp add: extractParamsFromRego_def foldl_set_add_first_occurrences)
  have d: "distinct (extractParamsFromRego s)"
    by (simp add: extractParamsFromRego_def distinct_foldl_set_add)
  have snd: "set (extractParamsFromRego s) \<subseteq> set (param_occurrences s)"
    using regex_matches_sound by (simp add: set_extractParamsFromRego)
  have emp: "\<not> has_prefix_occurrence s \<longrightarrow> extractParamsFromRego s = []"
    by (simp add: extractParamsFromRego_def regex_matches_no_prefix)
  have cmp: "\<forall>pre m post.
         s = pre @ params_prefix @ m @ post \<and> m \<noteq> [] \<and> (\<forall>c\<in>set m. is_ident c)
         \<and> (post = [] \<or> \<not> is_ident (hd post)) \<and> (pre = [] \<or> guard_char (last pre))
         \<longrightarrow> m \<in> set (extractParamsFromRego s)"
    using regex_matches_complete_guarded by (simp add: set_extractParamsFromRego)
  from ex d occurrences_from_decomp kept_characterisation snd emp cmp show ?thesis by blast
qed

lemma example_occurrences:
  "occurrences_from 0 ''input.params.input.params.x'' = [(0, ''input''), (13, ''x'')]"
  "occurrences_from 0 ''input.params.a.input.params.b'' = [(0, ''a''), (15, ''b'')]"
  "occurrences_from 0 ''xinput.params.a'' = [(1, ''a'')]"
  by (simp_all add: match_at_def params_prefix_def is_ident_def)

theorem extractParams_non_overlapping_matches_witness:
  "extractParamsFromRego ''input.params.a.input.params.b'' = [''a'', ''b'']
   \<and> extractParamsFromRego ''xinput.params.a'' = [''a'']
   \<and> extractParamsFromRego ''input.params.input.params.x'' = [''input'']
   \<and> (13, ''x'') \<in> set (occurrences_from 0 ''input.params.input.params.x'')
   \<and> inside_match (kept 0 (occurrences_from 0 ''input.params.input.params.x'')) 13
   \<and> (13, ''x'') \<notin> set (kept 0 (occurrences_from 0 ''input.params.input.params.x''))
   \<and> ''a'' \<in> set (extractParamsFromRego ''f(input.params.a) > input.params.a'')
   \<and> distinct (extractParamsFromRego ''f(input.params.a) > input.params.a'')
   \<and> extractParamsFromRego ''package p'' = []"
proof -
  let ?g = "''f(input.params.a) > input.params.a''"
  let ?x = "''input.params.input.params.x''"
  note ta = extractParams_non_overlapping_matches [of "''input.params.a.input.params.b''"]
  note tb = extractParams_non_overlapping_matches [of "''xinput.params.a''"]
  note tx = extractParams_non_overlapping_matches [of ?x]
  note tg = extractParams_non_overlapping_matches [of ?g]
  note tp = extractParams_non_overlapping_matches [of "''package p''"]
  have a: "extractParamsFromRego ''input.params.a.input.params.b'' = [''a'', ''b'']"
    unfolding ta [THEN conjunct1] example_occurrences
    by (simp add: match_end_def params_prefix_def first_occurrences_def)
  have b: "extractParamsFromRego ''xinput.params.a'' = [''a'']"
    unfolding tb [THEN conjunct1] example_occurrences
    by (simp add: match_end_def params_prefix_def first_occurrences_def)
  have kx: "kept 0 (occurrences_from 0 ?x) = [(0, ''input'')]"
    unfolding example_occurrences by (simp add: match_end_def params_prefix_def)
  have x: "extractParamsFromRego ?x = [''input'']"
    unfolding tx [THEN conjunct1] kx by (simp add: first_occurrences_def)
  have ox: "(13, ''x'') \<in> set (occurrences_from 0 ?x)"
    unfolding example_occurrences by simp
  have ix: "inside_match (kept 0 (occurrences_from 0 ?x)) 13"
    unfolding kx by (simp add: inside_match_def match_end_def params_prefix_def)
  from tx have "(13, ''x'') \<in> set (kept 0 (occurrences_from 0 ?x)) \<longleftrightarrow>
      (13, ''x'') \<in> set (occurrences_from 0 ?x)
      \<and> \<not> inside_match (kept 0 (occurrences_from 0 ?x)) (fst (13, ''x''))"
    by blast
  with ix have nx: "(13, ''x'') \<notin> set (kept 0 (occurrences_from 0 ?x))" by simp
  have h: "?g = ''f('' @ params_prefix @ ''a'' @ '') > input.params.a'' \<and> ''a'' \<noteq> []
      \<and> (\<forall>c\<in>set ''a''. is_ident c)
      \<and> ('') > input.params.a'' = [] \<or> \<not> is_ident (hd '') > input.params.a''))
      \<and> (''f('' = [] \<or> guard_char (last ''f(''))"
    by (simp add: params_prefix_def is_ident_def guard_char_def)
  have g: "''a'' \<in> set (extractParamsFromRego ?g)" using tg h by blast
  have dg: "distinct (extractParamsFromRego ?g)" using tg by blast
  have np: "\<not> has_prefix_occurrence ''package p''" by (simp add: params_prefix_def)
  have p: "extractParamsFromRego ''package p'' = []" using tp np by blast
  show ?thesis using a b x ox ix nx g dg p by blast
qed

section \<open>Results about pasting a predicate\<close>

lemma opt_chain_field_path:
  "opt_chain (field_path v ks) k = field_path v (ks @ [k])"
proof (induction v ks rule: field_path.induct)
  case (1 v)
  then show ?case by (cases v) (auto split: option.splits)
qed (auto split: option.splits)

lemma prop_access_field_path:
  "field_path v (ks @ [k]) = Some x \<Longrightarrow> prop_access (field_path v ks) k = Some (Some x)"
proof (induction v ks rule: field_path.induct)
  case (1 v)
  then show ?case by (cases v) (auto split: option.splits)
qed (auto split: option.splits)

lemma chain_is_path:
  "opt_chain (opt_chain (opt_chain (Some p) ''data'') ''releaseBundleVersion'') ''getVersion''
     = field_path p getVersion_path"
  using opt_chain_field_path [of p "[]" "''data''"]
    opt_chain_field_path [of p "[''data'']" "''releaseBundleVersion''"]
    opt_chain_field_path [of p "[''data'', ''releaseBundleVersion'']" "''getVersion''"]
  by (simp add: getVersion_path_def)

lemma access_is_path:
  assumes "field_path p getVersion_path = Some x"
  shows "\<exists>d r. prop_access (Some p) ''data'' = Some d
           \<and> prop_access d ''releaseBundleVersion'' = Some r
           \<and> prop_access r ''getVersion'' = Some (Some x)"
proof -
  have 3: "prop_access (field_path p [''data'', ''releaseBundleVersion'']) ''getVersion''
             = Some (Some x)"
    using prop_access_field_path [of p "[''data'', ''releaseBundleVersion'']" "''getVersion''" x]
      assms by (simp add: getVersion_path_def)
  then obtain r where r: "field_path p [''data'', ''releaseBundleVersion''] = Some r"
    by (cases "field_path p [''data'', ''releaseBundleVersion'']") auto
  have 2: "prop_access (field_path p [''data'']) ''releaseBundleVersion'' = Some (Some r)"
    using prop_access_field_path [of p "[''data'']" "''releaseBundleVersion''" r] r by simp
  then obtain d where d: "field_path p [''data''] = Some d"
    by (cases "field_path p [''data'']") auto
  have 1: "prop_access (Some p) ''data'' = Some (Some d)"
    using prop_access_field_path [of p "[]" "''data''" d] d by simp
  show ?thesis using 1 2 3 d r by simp
qed

text \<open>
  Claim C8. \<open>transformPredicateData\<close> returns its input unchanged when the input is not
  valid JSON, and when the parsed value has no truthy value at the path
  \<open>data.releaseBundleVersion.getVersion\<close>. When the value \<open>x\<close> at that path is truthy,
  it returns the two-space serialization of the object \<open>{ data: x }\<close>.
\<close>

theorem transformPredicateData_cases:
  "(parse s = None \<longrightarrow> transformPredicateData parse stringify s = s)
   \<and> (\<forall>p. parse s = Some p \<and> \<not> truthy_opt (field_path p getVersion_path)
          \<longrightarrow> transformPredicateData parse stringify s = s)
   \<and> (\<forall>p x. parse s = Some p \<and> field_path p getVersion_path = Some x \<and> truthy x
          \<longrightarrow> transformPredicateData parse stringify s = stringify (JObj [(''data'', x)]))"
proof (intro conjI allI impI)
  assume "parse s = None"
  then show "transformPredicateData parse stringify s = s"
    by (simp add: transformPredicateData_def)
next
  fix p
  assume "parse s = Some p \<and> \<not> truthy_opt (field_path p getVersion_path)"
  then show "transformPredicateData parse stringify s = s"
    by (simp add: transformPredicateData_def chain_is_path)
next
  fix p x
  assume a: "parse s = Some p \<and> field_path p getVersion_path = Some x \<and> truthy x"
  then obtain d r where "prop_access (Some p) ''data'' = Some d"
    "prop_access d ''releaseBundleVersion'' = Some r"
    "prop_access r ''getVersion'' = Some (Some x)"
    using access_is_path by blast
  with a show "transformPredicateData parse stringify s = stringify (JObj [(''data'', x)])"
    by (simp add: transformPredicateData_def chain_is_path truthy_opt_def object_data_def)
qed

theorem transformPredicateData_cases_witness:
  "transformPredicateData example_parse example_stringify (example_stringify exampleInput)
     = example_stringify expectedOutput
   \<and> transformPredicateData example_parse example_stringify ''not json'' = ''not json''
   \<and> transformPredicateData example_parse example_stringify ''{}'' = ''{}''
   \<and> transformPredicateData example_parse example_stringify ''0'' = ''0''"
proof -
  have ne: "example_stringify exampleInput \<noteq> ''{}''" "example_stringify exampleInput \<noteq> ''0''"
    by (simp_all add: example_stringify_def exampleInput_def)
  have p: "example_parse (example_stringify exampleInput) = Some exampleInput"
    by (simp add: example_parse_def)
  have f: "field_path exampleInput getVersion_path = Some example_getVersion"
    by (simp add: exampleInput_def getVersion_path_def)
  have t: "truthy example_getVersion" by (simp add: example_getVersion_def)
  have n: "example_parse ''not json'' = None"
    by (simp add: example_parse_def example_stringify_def exampleInput_def)
  have e: "example_parse ''{}'' = Some (JObj [])"
    and z: "example_parse ''0'' = Some (JNum (Finite 0))"
    using ne by (simp_all add: example_parse_def)
  have ef: "\<not> truthy_opt (field_path (JObj []) getVersion_path)"
    and zf: "\<not> truthy_opt (field_path (JNum (Finite 0)) getVersion_path)"
    by (simp_all add: getVersion_path_def truthy_opt_def)
  note c1 = transformPredicateData_cases [of example_parse "example_stringify exampleInput"
      example_stringify]
  note c2 = transformPredicateData_cases [of example_parse "''not json''" example_stringify]
  note c3 = transformPredicateData_cases [of example_parse "''{}''" example_stringify]
  note c4 = transformPredicateData_cases [of example_parse "''0''" example_stringify]
  from c1 p f t have 1: "transformPredicateData example_parse example_stringify
      (example_stringify exampleInput) = example_stringify (JObj [(''data'', example_getVersion)])"
    by blast
  from c2 n have 2: "transformPredicateData example_parse example_stringify ''not json''
      = ''not json''" by blast
  from c3 e ef have 3: "transformPredicateData example_parse example_stringify ''{}'' = ''{}''"
    by blast
  from c4 z zf have 4: "transformPredicateData example_parse example_stringify ''0'' = ''0''"
    by blast
  show ?thesis using 1 2 3 4 by (simp add: expectedOutput_def)
qed

section \<open>Results about deleting a template\<close>

lemma find_filter_removed: "find (\<lambda>x. key x = i) (filter (\<lambda>x. key x \<noteq> i) xs) = None"
  by (induction xs) auto

lemma delete_template_referenced:
  assumes "find_entity (templates b) tid = Some t" and "referencing_rules b tid \<noteq> []"
  shows "delete_template b tid = (b, Inl Conflict)"
  using assms by (simp add: delete_template_def delete_entity_def)

lemma delete_template_unreferenced:
  assumes "find_entity (templates b) tid = Some t" and "referencing_rules b tid = []"
  shows "snd (delete_template b tid) = Inr ()"
    and "find_entity (templates (fst (delete_template b tid))) tid = None"
    and "rules (fst (delete_template b tid)) = rules b"
  using assms
  by (simp_all add: delete_template_def delete_entity_def find_entity_def find_filter_removed)

text \<open>
  Claim C1. Deleting a template that at least one existing rule references fails with
  \<open>Conflict\<close> and changes nothing: the template is still there and so are the rules.
  Deleting a template that no rule references succeeds and removes the template only.
  The templates page agrees: with a dependent rule in the list it alerts and sends no
  delete request; with none it sends the request once the user confirms.
\<close>

theorem delete_template_blocked_iff_referenced:
  assumes "find_entity (templates b) tid = Some t"
  shows "((\<exists>r\<in>set (entities (rules b)). template_id (payload r) = tid) \<longrightarrow>
            delete_template b tid = (b, Inl Conflict)
          \<and> (\<forall>confirm. DeleteMutation tid \<notin> set (handleDeleteTemplate (Some (entities (rules b))) confirm tid)))
       \<and> (\<not> (\<exists>r\<in>set (entities (rules b)). template_id (payload r) = tid) \<longrightarrow>
            snd (delete_template b tid) = Inr ()
          \<and> find_entity (templates (fst (delete_template b tid))) tid = None
          \<and> rules (fst (delete_template b tid)) = rules b
          \<and> handleDeleteTemplate (Some (entities (rules b))) True tid = [DeleteMutation tid])"
proof -
  have ref: "(\<exists>r\<in>set (entities (rules b)). template_id (payload r) = tid)
      \<longleftrightarrow> referencing_rules b tid \<noteq> []"
    by (auto simp: referencing_rules_def filter_empty_conv)
  have h1: "referencing_rules b tid \<noteq> [] \<Longrightarrow>
      DeleteMutation tid \<notin> set (handleDeleteTemplate (Some (entities (rules b))) confirm tid)"
    for confirm
    by (simp add: handleDeleteTemplate_def referencing_rules_def Let_def)
  have h2: "referencing_rules b tid = [] \<Longrightarrow>
      handleDeleteTemplate (Some (entities (rules b))) True tid = [DeleteMutation tid]"
    by (simp add: handleDeleteTemplate_def referencing_rules_def Let_def)
  show ?thesis
    unfolding ref
    using delete_template_referenced [OF assms] delete_template_unreferenced [OF assms] h1 h2
    by blast
qed


lemmas example_defs =
  example_created_def example_updated_def create_def update_def append_version_def
  new_version_def
  empty_store_def find_entity_def entity_log_def latest_version_def example_gen_def

lemma example_created_value:
  "example_created =
     \<lparr> entities = [\<lparr> entity_id = 1, status = Draft, remote_id = None, created_at = ''t0'',
                       updated_at = ''t0'', payload = [''package p''] \<rparr>],
       versions = [\<lparr> version_id = 1, owner_id = 1, version_ref = ''t0-package p'',
                       message = ''Initial draft'', author = ''system'',
                       data = [''package p''], version_created_at = ''t0'',
                       parent_id = None, is_published = False \<rparr>],
       next_entity_id = 2, next_version_id = 2 \<rparr>"
  by (simp add: example_defs Let_def del: set_filter)

lemma example_updated_value:
  "example_updated =
     \<lparr> entities = [\<lparr> entity_id = 1, status = Draft, remote_id = None, created_at = ''t0'',
                       updated_at = ''t1'', payload = [''package p'', ''allow := true''] \<rparr>],
       versions = [\<lparr> version_id = 1, owner_id = 1, version_ref = ''t0-package p'',
                       message = ''Initial draft'', author = ''system'',
                       data = [''package p''], version_created_at = ''t0'',
                       parent_id = None, is_published = False \<rparr>,
                   \<lparr> version_id = 2, owner_id = 1, version_ref = ''t1-package pallow := true'',
                       message = ''Update draft'', author = ''system'',
                       data = [''package p'', ''allow := true''], version_created_at = ''t1'',
                       parent_id = Some 1, is_published = False \<rparr>],
       next_entity_id = 2, next_version_id = 3 \<rparr>"
  unfolding example_updated_def example_created_value
  by (simp add: update_def append_version_def new_version_def find_entity_def
      entity_log_def latest_version_def example_gen_def Let_def del: set_filter)

theorem delete_template_blocked_iff_referenced_witness:
  "delete_template example_backend 1 = (example_backend, Inl Conflict)
   \<and> handleDeleteTemplate (Some (entities (rules example_backend))) True 1
        = [AlertInUse 1 [''r1'']]
   \<and> snd (delete_template example_backend_no_rules 1) = Inr ()
   \<and> find_entity (templates (fst (delete_template example_backend_no_rules 1))) 1 = None
   \<and> handleDeleteTemplate (Some (entities (rules example_backend_no_rules))) True 1
        = [DeleteMutation 1]"
proof -
  let ?t = "\<lparr> entity_id = 1, status = Draft, remote_id = None, created_at = ''t0'',
              updated_at = ''t1'', payload = [''package p'', ''allow := true''] \<rparr>"
  have f1: "find_entity (templates example_backend) 1 = Some ?t"
    by (simp add: example_backend_def example_updated_value find_entity_def)
  have f2: "find_entity (templates example_backend_no_rules) 1 = Some ?t"
    by (simp add: example_backend_no_rules_def example_updated_value find_entity_def)
  have r1: "\<exists>r\<in>set (entities (rules example_backend)). template_id (payload r) = 1"
    by (simp add: example_backend_def example_rule_def)
  have r2: "\<not> (\<exists>r\<in>set (entities (rules example_backend_no_rules)). template_id (payload r) = 1)"
    by (simp add: example_backend_no_rules_def empty_store_def)
  have a: "handleDeleteTemplate (Some (entities (rules example_backend))) True 1
        = [AlertInUse 1 [''r1'']]"
    by (simp add: handleDeleteTemplate_def example_backend_def example_rule_def)
  show ?thesis
    using delete_template_blocked_iff_referenced [OF f1] r1
      delete_template_blocked_iff_referenced [OF f2] r2 a
    by blast
qed

section \<open>Results about the version log\<close>



























end
